theory Spec2Isabelle
  imports Complex_Main "HOL-Library.Log_Nat"
begin

section \<open>Numbers\<close>

text \<open>
  The leaves of a \<open>PipelineElement\<close> are JavaScript numbers: IEEE 754 doubles. A finite
  double is the rational it denotes (\<open>Num q\<close>); the two infinities and NaN are values of
  their own. The two zeros are one value, \<open>Num 0\<close>: the program never divides, and its
  comparisons, its arithmetic and \<open>toString\<close> do not tell them apart. A \<open>Num q\<close> whose
  \<open>q\<close> is no double is not a value the program meets; \<open>is_double\<close> says which are.

  Every arithmetic operation of the language gives the exact result rounded to the nearest
  double, ties to the even significand. \<open>round_double\<close> is that rounding: \<open>binade x\<close> is
  the exponent \<open>b\<close> with \<open>2^b \<le> x < 2^(b+1)\<close> for \<open>x \<ge> 2^-1074\<close> (the smallest positive
  double), read off the bit length of \<open>x\<close> counted in units of \<open>2^-1074\<close>; a double of
  that binade is a multiple of \<open>2^(b-52)\<close>, and of \<open>2^-1074\<close> at the bottom of the range;
  a result that rounds to \<open>2^1024\<close> or beyond is an infinity.
\<close>

datatype number = Num rat | Infinity | MinusInfinity | NaN

definition round_half_even :: "rat \<Rightarrow> int" where
  "round_half_even x =
     (let f = \<lfloor>x\<rfloor>; r = x - of_int f
      in if r < 1 / 2 then f else if 1 / 2 < r then f + 1 else if even f then f else f + 1)"

definition binade :: "rat \<Rightarrow> int" where
  "binade x = bitlen \<lfloor>x * 2 ^ 1074\<rfloor> - 1075"

definition round_double :: "rat \<Rightarrow> number" where
  "round_double q =
     (if q = 0 then Num 0
      else let e = max (binade \<bar>q\<bar> - 52) (- 1074);
               v = of_int (round_half_even (\<bar>q\<bar> / 2 powi e)) * 2 powi e
           in if 2 ^ 1024 \<le> v then (if 0 < q then Infinity else MinusInfinity)
              else Num (if 0 < q then v else - v))"

definition is_double :: "rat \<Rightarrow> bool" where
  "is_double q = (round_double q = Num q)"

text \<open>\<open>x + y\<close>, \<open>x - y\<close> and \<open>x * y\<close> on numbers.\<close>

fun add :: "number \<Rightarrow> number \<Rightarrow> number" where
  "add (Num a) (Num b) = round_double (a + b)"
| "add NaN y = NaN"
| "add x NaN = NaN"
| "add Infinity MinusInfinity = NaN"
| "add MinusInfinity Infinity = NaN"
| "add Infinity y = Infinity"
| "add x Infinity = Infinity"
| "add MinusInfinity y = MinusInfinity"
| "add x MinusInfinity = MinusInfinity"

fun sub :: "number \<Rightarrow> number \<Rightarrow> number" where
  "sub (Num a) (Num b) = round_double (a - b)"
| "sub NaN y = NaN"
| "sub x NaN = NaN"
| "sub Infinity Infinity = NaN"
| "sub MinusInfinity MinusInfinity = NaN"
| "sub Infinity y = Infinity"
| "sub x Infinity = MinusInfinity"
| "sub MinusInfinity y = MinusInfinity"
| "sub x MinusInfinity = Infinity"

fun mul :: "number \<Rightarrow> number \<Rightarrow> number" where
  "mul (Num a) (Num b) = round_double (a * b)"
| "mul NaN y = NaN"
| "mul x NaN = NaN"
| "mul (Num a) Infinity = (if a = 0 then NaN else if 0 < a then Infinity else MinusInfinity)"
| "mul (Num a) MinusInfinity = (if a = 0 then NaN else if 0 < a then MinusInfinity else Infinity)"
| "mul Infinity (Num b) = (if b = 0 then NaN else if 0 < b then Infinity else MinusInfinity)"
| "mul MinusInfinity (Num b) = (if b = 0 then NaN else if 0 < b then MinusInfinity else Infinity)"
| "mul Infinity Infinity = Infinity"
| "mul MinusInfinity MinusInfinity = Infinity"
| "mul Infinity MinusInfinity = MinusInfinity"
| "mul MinusInfinity Infinity = MinusInfinity"

section \<open>The value model: \<open>PipelineElement\<close>\<close>

text \<open>
  \<open>value: number | PipelineElement[]\<close>: the test \<open>Array.isArray(this.value)\<close> of the
  source is the case distinction between the two constructors.
\<close>

datatype PipelineElement = Scalar number | Batch "PipelineElement list"

text \<open>
  \<open>getFlatValues\<close>: a scalar gives \<open>[this.value]\<close>; an array starts from the empty
  \<open>flatValues\<close> and, for each element in order, pushes that element's flat values.
\<close>

fun getFlatValues :: "PipelineElement \<Rightarrow> number list" where
  "getFlatValues (Scalar v) = [v]"
| "getFlatValues (Batch elements) =
     foldl (\<lambda>flatValues element. flatValues @ getFlatValues element) [] elements"

text \<open>
  The traversal the specification describes, written on its own: a left-to-right,
  depth-first walk with an explicit stack of the containers still to visit. The head of
  the stack is visited next; a batch is replaced by its members, in order, before the
  rest; a scalar contributes its value.
\<close>

fun weight :: "PipelineElement \<Rightarrow> nat" where
  "weight (Scalar v) = 1"
| "weight (Batch elements) = Suc (sum_list (map weight elements))"

function leaves_dfs :: "PipelineElement list \<Rightarrow> number list" where
  "leaves_dfs [] = []"
| "leaves_dfs (Scalar v # rest) = v # leaves_dfs rest"
| "leaves_dfs (Batch elements # rest) = leaves_dfs (elements @ rest)"
  by pat_completeness auto
termination
  by (relation "measure (\<lambda>stack. sum_list (map weight stack))") auto

section \<open>The filter block\<close>

datatype ArrayLogicalBehavior = AND | OR

text \<open>
  \<open>doesPassFilter\<close> closes over \<open>arrayLogicalBehavior\<close>; here it is the first argument.
  The two \<open>reduce\<close> calls are left folds from \<open>true\<close> and from \<open>false\<close>. A predicate is a
  total function on numbers (a predicate that throws is a block that throws, see the
  executor).
\<close>

fun doesPassFilter ::
  "ArrayLogicalBehavior \<Rightarrow> PipelineElement \<Rightarrow> (number \<Rightarrow> bool) \<Rightarrow> bool" where
  "doesPassFilter arrayLogicalBehavior (Scalar v) predicate = predicate v"
| "doesPassFilter arrayLogicalBehavior (Batch elements) predicate =
     (if arrayLogicalBehavior = AND
      then foldl (\<lambda>aggregator inner.
                    aggregator \<and> doesPassFilter arrayLogicalBehavior inner predicate)
             True elements
      else foldl (\<lambda>aggregator inner.
                    aggregator \<or> doesPassFilter arrayLogicalBehavior inner predicate)
             False elements)"

text \<open>\<open>x > y\<close> on numbers; any comparison with NaN is false.\<close>

fun greater :: "number \<Rightarrow> number \<Rightarrow> bool" where
  "greater (Num a) (Num b) = (b < a)"
| "greater NaN y = False"
| "greater x NaN = False"
| "greater x Infinity = False"
| "greater MinusInfinity y = False"
| "greater Infinity y = True"
| "greater x MinusInfinity = True"

section \<open>The fold blocks\<close>

fun getSumOfValues :: "PipelineElement \<Rightarrow> number" where
  "getSumOfValues (Scalar v) = v"
| "getSumOfValues (Batch elements) =
     foldl (\<lambda>aggregator element. add aggregator (getSumOfValues element)) (Num 0) elements"

text \<open>
  \<open>values.sort(comparefn)\<close>. The language calls \<open>comparefn\<close> through \<open>SortCompare\<close>, which
  reads a NaN result as \<open>+0\<close>, and promises a stable sort whenever \<open>comparefn\<close> is a
  consistent comparator; the order is implementation-defined otherwise. The model is the
  stable insertion sort: it is that promised result on every consistent comparator, and
  \<open>x - y\<close> is one on arrays without NaN. Nothing below is stated about the order of an
  array that holds NaN.
\<close>

definition SortCompare :: "('a \<Rightarrow> 'a \<Rightarrow> number) \<Rightarrow> 'a \<Rightarrow> 'a \<Rightarrow> number" where
  "SortCompare comparefn x y = (case comparefn x y of NaN \<Rightarrow> Num 0 | v \<Rightarrow> v)"

fun insert_sorted :: "('a \<Rightarrow> 'a \<Rightarrow> number) \<Rightarrow> 'a \<Rightarrow> 'a list \<Rightarrow> 'a list" where
  "insert_sorted comparefn x [] = [x]"
| "insert_sorted comparefn x (y # ys) =
     (if greater (SortCompare comparefn x y) (Num 0) then y # insert_sorted comparefn x ys
      else x # y # ys)"

definition array_sort :: "('a \<Rightarrow> 'a \<Rightarrow> number) \<Rightarrow> 'a list \<Rightarrow> 'a list" where
  "array_sort comparefn xs = foldr (insert_sorted comparefn) xs []"

text \<open>
  \<open>values[i]\<close>: reading an array at an index that is not one of \<open>0 .. length - 1\<close> does
  not raise in JavaScript, it gives \<open>undefined\<close> (here \<open>None\<close>); \<open>ToNumber\<close> is the
  coercion the arithmetic operators apply to what was read, and it takes \<open>undefined\<close> to
  NaN.
\<close>

definition in_bounds :: "'a list \<Rightarrow> int \<Rightarrow> bool" where
  "in_bounds values i = (0 \<le> i \<and> i < int (length values))"

definition index :: "'a list \<Rightarrow> int \<Rightarrow> 'a option" where
  "index values i = (if in_bounds values i then Some (values ! nat i) else None)"

fun ToNumber :: "number option \<Rightarrow> number" where
  "ToNumber None = NaN"
| "ToNumber (Some v) = v"

text \<open>
  \<open>getMedianOfValues\<close>. The divisions \<open>n / 2\<close> and \<open>(n - 1) / 2\<close> are exact where they are
  evaluated (\<open>n\<close> even, \<open>n\<close> odd), so integer division gives the same index. In the odd
  branch the source returns what it read without arithmetic; the read is in range for
  every odd \<open>n\<close> (lemma \<open>odd_read_in_bounds\<close>), so the coercion is the identity there.
\<close>

fun getMedianOfValues :: "PipelineElement \<Rightarrow> number" where
  "getMedianOfValues (Scalar v) = v"
| "getMedianOfValues (Batch elements) =
     (let values = array_sort (\<lambda>x y. sub x y) (getFlatValues (Batch elements));
          n = int (length values)
      in if n mod 2 = 0
         then mul (Num (1 / 2))
                (add (ToNumber (index values (n div 2)))
                     (ToNumber (index values (n div 2 - 1))))
         else ToNumber (index values ((n - 1) div 2)))"

text \<open>
  The median as the specification words it, on exact numbers: sort ascending, then the
  average of the two middle elements for an even count and the single middle element for
  an odd count. An empty sequence has no middle element, hence no median.
\<close>

definition median :: "rat list \<Rightarrow> rat option" where
  "median qs =
     (let sorted_qs = sort qs; n = length qs
      in if n = 0 then None
         else if even n then Some ((sorted_qs ! (n div 2 - 1) + sorted_qs ! (n div 2)) / 2)
         else Some (sorted_qs ! (n div 2)))"

section \<open>Rendering\<close>

text \<open>
  \<open>Number.prototype.toString\<close> is a built-in of the language. For an integer of
  absolute value up to \<open>2^53\<close> it prints the decimal digits, with a minus sign for a
  negative one; for NaN and the infinities it prints their names; these cases are
  modelled. What it prints for every other number (the shortest decimal that reads back
  as the same double, or exponent notation) is the parameter \<open>other\<close>.
\<close>

definition digit :: "nat \<Rightarrow> char" where
  "digit d = ''0123456789'' ! d"

function decimal :: "nat \<Rightarrow> string" where
  "decimal n = (if n < 10 then [digit n] else decimal (n div 10) @ [digit (n mod 10)])"
  by pat_completeness auto
termination
  by (relation "measure (\<lambda>n. n)") auto

fun toString :: "(rat \<Rightarrow> string) \<Rightarrow> number \<Rightarrow> string" where
  "toString other NaN = ''NaN''"
| "toString other Infinity = ''Infinity''"
| "toString other MinusInfinity = ''-Infinity''"
| "toString other (Num q) =
     (if of_int \<lfloor>q\<rfloor> = q \<and> \<bar>q\<bar> \<le> 2 ^ 53
      then (if q < 0 then ''-'' else []) @ decimal (nat \<bar>\<lfloor>q\<rfloor>\<bar>)
      else other q)"

fun join :: "string list \<Rightarrow> string \<Rightarrow> string" where
  "join [] separator = []"
| "join [s] separator = s"
| "join (s # rest) separator = s @ separator @ join rest separator"

fun getValueAsString :: "(rat \<Rightarrow> string) \<Rightarrow> PipelineElement \<Rightarrow> string" where
  "getValueAsString other (Scalar v) = toString other v"
| "getValueAsString other (Batch elements) =
     ''['' @ join (foldl (\<lambda>substrings inner. substrings @ [getValueAsString other inner])
                     [] elements) '', '' @ '']''"

section \<open>Building blocks\<close>

text \<open>
  \<open>type BuildingBlock = (el: PipelineElement) => PipelineElement | null\<close>. A block is a
  closure: a call returns an element or \<open>null\<close> (\<open>Returned None\<close>), or throws a value;
  it may write lines to the console, and it may change the variables it closes over, so
  that the next call meets a different closure. The three selectors give, for the element
  a block is called on, the outcome of the call, the lines it logs and the block as the
  call leaves it.

  The executor reads \<open>err.message\<close> of what was thrown (\<open>err: any\<close>) and logs it. For an
  \<open>Error\<close>, and for every other value that is not \<open>null\<close> or \<open>undefined\<close>, the read gives
  a value and \<open>console.log\<close> prints a line (\<open>undefined\<close> for a value without the
  property): \<open>WithMessage\<close> carries that line. For \<open>null\<close> and \<open>undefined\<close> the read
  itself raises a \<open>TypeError\<close>: \<open>Nullish\<close> (which also stands for any other value whose
  \<open>message\<close> raises when it is read).
\<close>

datatype thrown = WithMessage string | Nullish

datatype outcome = Returned "PipelineElement option" | Thrown thrown

codatatype BuildingBlock =
  BuildingBlock (outcome_of: "PipelineElement \<Rightarrow> outcome")
                (logged: "PipelineElement \<Rightarrow> string list")
                (after: "PipelineElement \<Rightarrow> BuildingBlock")

primcorec filter_block :: "(number \<Rightarrow> bool) \<Rightarrow> ArrayLogicalBehavior \<Rightarrow> BuildingBlock" where
  "outcome_of (filter_block predicate arrayLogicalBehavior) =
     (\<lambda>element. Returned (if doesPassFilter arrayLogicalBehavior element predicate
                           then Some element else None))"
| "logged (filter_block predicate arrayLogicalBehavior) = (\<lambda>element. [])"
| "after (filter_block predicate arrayLogicalBehavior) =
     (\<lambda>element. filter_block predicate arrayLogicalBehavior)"

text \<open>
  The closure that \<open>fixedEventWindow(size)\<close> returns, with the \<open>eventBuffer\<close> it closes
  over as an argument. \<open>eventBuffer.length == size\<close> compares a length with a number.
  The returned element wraps the buffer array itself; the next call replaces the full
  buffer by a new array before it pushes, so the wrapped array is never written again.
\<close>

definition push_event :: "number \<Rightarrow> PipelineElement list \<Rightarrow> PipelineElement \<Rightarrow> PipelineElement list" where
  "push_event size' eventBuffer element =
     (if Num (of_nat (length eventBuffer)) = size' then [] else eventBuffer) @ [element]"

primcorec window_closure :: "number \<Rightarrow> PipelineElement list \<Rightarrow> BuildingBlock" where
  "outcome_of (window_closure size' eventBuffer) =
     (\<lambda>element. Returned (if Num (of_nat (length (push_event size' eventBuffer element))) = size'
                           then Some (Batch (push_event size' eventBuffer element)) else None))"
| "logged (window_closure size' eventBuffer) = (\<lambda>element. [])"
| "after (window_closure size' eventBuffer) =
     (\<lambda>element. window_closure size' (push_event size' eventBuffer element))"

definition fixedEventWindow :: "number \<Rightarrow> BuildingBlock" where
  "fixedEventWindow size' = window_closure size' []"

primcorec foldSum :: BuildingBlock where
  "outcome_of foldSum = (\<lambda>element. Returned (Some (Scalar (getSumOfValues element))))"
| "logged foldSum = (\<lambda>element. [])"
| "after foldSum = (\<lambda>element. foldSum)"

primcorec foldMedian :: BuildingBlock where
  "outcome_of foldMedian = (\<lambda>element. Returned (Some (Scalar (getMedianOfValues element))))"
| "logged foldMedian = (\<lambda>element. [])"
| "after foldMedian = (\<lambda>element. foldMedian)"

primcorec stdoutProcessor :: "(rat \<Rightarrow> string) \<Rightarrow> BuildingBlock" where
  "outcome_of (stdoutProcessor other) = (\<lambda>element. Returned (Some element))"
| "logged (stdoutProcessor other) = (\<lambda>element. [getValueAsString other element])"
| "after (stdoutProcessor other) = (\<lambda>element. stdoutProcessor other)"

section \<open>The executor\<close>

text \<open>
  \<open>runBuildingBlocks\<close> returns nothing; what a run leaves behind is the blocks as their
  calls left them, the lines on the console and whether an exception left the function.
  \<open>element\<close> is the last value of the variable of that name when the loop has run to its
  end, and \<open>None\<close> when an exception left it. \<open>calls\<close> records, in order, the argument of
  every call \<open>block(element)\<close> the loop makes: the loop calls the blocks from the first on
  and makes no call once \<open>element\<close> is \<open>null\<close>, so the k-th entry is the argument the
  k-th block was called on.

  A thrown value is caught and the assignment to \<open>element\<close> has not happened. The handler
  logs \<open>err.message\<close> and the loop goes on; for \<open>null\<close> and \<open>undefined\<close> the handler
  itself raises, nothing is logged, and the exception leaves \<open>forEach\<close> and
  \<open>runBuildingBlocks\<close>: the blocks after are not called.
\<close>

record run =
  element :: "PipelineElement option"
  blocks :: "BuildingBlock list"
  console :: "string list"
  calls :: "PipelineElement list"
  uncaught :: bool

fun runBuildingBlocks :: "PipelineElement option \<Rightarrow> BuildingBlock list \<Rightarrow> run" where
  "runBuildingBlocks el [] =
     \<lparr>element = el, blocks = [], console = [], calls = [], uncaught = False\<rparr>"
| "runBuildingBlocks None (block # rest) =
     (let r = runBuildingBlocks None rest in r\<lparr>blocks := block # blocks r\<rparr>)"
| "runBuildingBlocks (Some el) (block # rest) =
     (case outcome_of block el of
        Returned el' \<Rightarrow>
          (let r = runBuildingBlocks el' rest
           in \<lparr>element = element r, blocks = after block el # blocks r,
               console = logged block el @ console r, calls = el # calls r,
               uncaught = uncaught r\<rparr>)
      | Thrown (WithMessage message) \<Rightarrow>
          (let r = runBuildingBlocks (Some el) rest
           in \<lparr>element = element r, blocks = after block el # blocks r,
               console = logged block el @ [message] @ console r, calls = el # calls r,
               uncaught = uncaught r\<rparr>)
      | Thrown Nullish \<Rightarrow>
          \<lparr>element = None, blocks = after block el # rest, console = logged block el,
           calls = [el], uncaught = True\<rparr>)"

text \<open>The block list \<open>functions\<close> assembled at start-up.\<close>

definition pipeline_functions :: "(rat \<Rightarrow> string) \<Rightarrow> BuildingBlock list" where
  "pipeline_functions other =
     [filter_block (\<lambda>i. greater i (Num 0)) AND,
      fixedEventWindow (Num 2),
      foldSum,
      fixedEventWindow (Num 3),
      foldMedian,
      stdoutProcessor other]"

text \<open>
  The source. \<open>getValidInputNumber\<close> is given \<open>Number(line)\<close>, the number the language reads
  from the line (NaN when the line is not a number; the infinities are numbers). The
  handler of a line logs the message of a rejected line and runs nothing, and otherwise
  runs the blocks on a new scalar. The state between lines is the blocks and the lines
  logged so far (the prompt that readline writes is not one of them); \<open>history\<close> keeps the
  \<open>calls\<close> of each run, one entry per accepted line. The handler has no \<open>try\<close>: an
  exception that leaves \<open>runBuildingBlocks\<close> leaves the handler too and ends the process
  (\<open>crashed\<close>), and no later line is handled.
\<close>

definition getValidInputNumber :: "number \<Rightarrow> string + number" where
  "getValidInputNumber parsedInput =
     (if parsedInput = NaN then Inl ''input is not a number'' else Inr parsedInput)"

record pipeline =
  stages :: "BuildingBlock list"
  stdout :: "string list"
  history :: "PipelineElement list list"
  crashed :: bool

definition on_line :: "pipeline \<Rightarrow> number \<Rightarrow> pipeline" where
  "on_line p parsed =
     (case getValidInputNumber parsed of
        Inl message \<Rightarrow> p\<lparr>stdout := stdout p @ [message]\<rparr>
      | Inr parsedInput \<Rightarrow>
          (let r = runBuildingBlocks (Some (Scalar parsedInput)) (stages p)
           in \<lparr>stages = blocks r, stdout = stdout p @ console r,
               history = history p @ [calls r], crashed = uncaught r\<rparr>))"

definition stdinSource :: "BuildingBlock list \<Rightarrow> number list \<Rightarrow> pipeline" where
  "stdinSource fs lines =
     foldl (\<lambda>p parsed. if crashed p then p else on_line p parsed)
       \<lparr>stages = fs, stdout = [], history = [], crashed = False\<rparr> lines"

section \<open>Observations used in the statements\<close>

text \<open>
  The indices at which \<open>getMedianOfValues\<close> reads the sorted array \<open>values\<close>: \<open>n / 2\<close> and
  \<open>n / 2 - 1\<close> for an even length, \<open>(n - 1) / 2\<close> for an odd one.
\<close>

definition median_reads :: "'a list \<Rightarrow> int list" where
  "median_reads values =
     (let n = int (length values)
      in if n mod 2 = 0 then [n div 2, n div 2 - 1] else [(n - 1) div 2])"

text \<open>The outcomes of calling one block on a sequence of elements, one call after the other.\<close>

fun successive :: "BuildingBlock \<Rightarrow> PipelineElement list \<Rightarrow> outcome list" where
  "successive block [] = []"
| "successive block (el # els) = outcome_of block el # successive (after block el) els"

text \<open>A block that throws the given value on every call.\<close>

primcorec throwing :: "thrown \<Rightarrow> BuildingBlock" where
  "outcome_of (throwing err) = (\<lambda>element. Thrown err)"
| "logged (throwing err) = (\<lambda>element. [])"
| "after (throwing err) = (\<lambda>element. throwing err)"

text \<open>The elements the k-th block was called on, over the runs of a history.\<close>

definition inputs_of :: "nat \<Rightarrow> PipelineElement list list \<Rightarrow> PipelineElement list" where
  "inputs_of k hist = concat (map (\<lambda>cs. if k < length cs then [cs ! k] else []) hist)"

section \<open>Rounding to doubles\<close>

lemma round_half_even_int: "round_half_even (of_int j) = j"
  by (simp add: round_half_even_def)

lemma round_half_even_ge: "1 \<le> x \<Longrightarrow> 1 \<le> round_half_even x"
proof -
  assume "1 \<le> x"
  then have "1 \<le> \<lfloor>x\<rfloor>" by simp
  then show ?thesis by (simp add: round_half_even_def Let_def)
qed

lemma round_half_even_tie: "even m \<Longrightarrow> round_half_even (of_int m + 1 / 2) = m"
proof -
  assume ev: "even m"
  have fl: "\<lfloor>(of_int m :: rat) + 1 / 2\<rfloor> = m" by linarith
  show ?thesis unfolding round_half_even_def Let_def fl using ev by simp
qed

lemma grid_inverse: "(2::rat) powi (- 1074) * 2 ^ 1074 = 1"
proof -
  have "(2::rat) powi (- 1074) = inverse (2 ^ 1074)"
    by (simp only: power_int_minus power_int_numeral)
  then show ?thesis by simp
qed

lemma scaled_floor_pos:
  assumes "2 powi (- 1074) \<le> (x::rat)"
  shows "0 < \<lfloor>x * 2 ^ 1074\<rfloor>"
proof -
  have "2 powi (- 1074) * 2 ^ 1074 \<le> x * (2::rat) ^ 1074"
    using assms by (rule mult_right_mono) simp
  then have "1 \<le> x * (2::rat) ^ 1074" by (simp only: grid_inverse)
  then show ?thesis by (simp only: zero_less_floor)
qed

lemma binade_split:
  "(2::rat) powi (binade x + k) = 2 powi (bitlen \<lfloor>x * 2 ^ 1074\<rfloor> - 1 + k) * 2 powi (- 1074)"
proof -
  have "binade x + k = (bitlen \<lfloor>x * 2 ^ 1074\<rfloor> - 1 + k) + (- 1074)"
    unfolding binade_def by simp
  then show ?thesis by (simp only: power_int_add [of "2::rat", simplified])
qed

lemma binade_le:
  assumes "2 powi (- 1074) \<le> x"
  shows "2 powi (binade x) \<le> x"
proof -
  let ?N = "\<lfloor>x * 2 ^ 1074\<rfloor>"
  have N: "0 < ?N" using assms by (rule scaled_floor_pos)
  have "2 ^ nat (bitlen ?N - 1) \<le> ?N" using bitlen_bounds [OF N] by simp
  then have "(of_int (2 ^ nat (bitlen ?N - 1)) :: rat) \<le> of_int ?N"
    by (simp only: of_int_le_iff)
  also have "\<dots> \<le> x * 2 ^ 1074" by (rule of_int_floor_le)
  finally have le: "(2::rat) ^ nat (bitlen ?N - 1) \<le> x * 2 ^ 1074" by simp
  have pos: "0 \<le> bitlen ?N - 1" using N by (simp add: bitlen_alt_def)
  have "(2::rat) powi (binade x) = 2 powi (bitlen ?N - 1) * 2 powi (- 1074)"
    using binade_split [of x 0] by simp
  also have "\<dots> = 2 ^ nat (bitlen ?N - 1) * 2 powi (- 1074)"
    using pos by (simp only: power_int_nonneg_exp)
  also have "\<dots> \<le> (x * 2 ^ 1074) * 2 powi (- 1074)"
    using le by (rule mult_right_mono) simp
  also have "\<dots> = x * (2 powi (- 1074) * 2 ^ 1074)" by (simp only: mult_ac)
  also have "\<dots> = x" by (simp only: grid_inverse mult_1_right)
  finally show ?thesis .
qed

lemma binade_less:
  assumes "2 powi (- 1074) \<le> x"
  shows "x < 2 powi (binade x + 1)"
proof -
  let ?N = "\<lfloor>x * 2 ^ 1074\<rfloor>"
  have N: "0 < ?N" using assms by (rule scaled_floor_pos)
  have "?N < 2 ^ nat (bitlen ?N)" using bitlen_bounds [OF N] by simp
  then have "?N + 1 \<le> 2 ^ nat (bitlen ?N)" by simp
  then have "(of_int (?N + 1) :: rat) \<le> of_int (2 ^ nat (bitlen ?N))"
    by (simp only: of_int_le_iff)
  then have up: "of_int ?N + 1 \<le> (2::rat) ^ nat (bitlen ?N)" by simp
  have "x * 2 ^ 1074 < of_int ?N + 1" by linarith
  with up have lt: "x * 2 ^ 1074 < (2::rat) ^ nat (bitlen ?N)" by simp
  have pos: "0 \<le> bitlen ?N" by (rule bitlen_nonneg)
  have "x = x * (2 powi (- 1074) * 2 ^ 1074)" by (simp only: grid_inverse mult_1_right)
  also have "\<dots> = (x * 2 ^ 1074) * 2 powi (- 1074)" by (simp only: mult_ac)
  also have "\<dots> < 2 ^ nat (bitlen ?N) * 2 powi (- 1074)"
    using lt by (rule mult_strict_right_mono) simp
  also have "\<dots> = 2 powi (bitlen ?N) * 2 powi (- 1074)"
    using pos by (simp only: power_int_nonneg_exp)
  also have "\<dots> = 2 powi (binade x + 1)"
    using binade_split [of x 1] by simp
  finally show ?thesis .
qed

lemma binade_eq:
  assumes lo: "2 powi b \<le> x" and hi: "x < 2 powi (b + 1)" and b: "- 1074 \<le> b"
  shows "binade x = b"
proof -
  have "(2::rat) powi (- 1074) \<le> 2 powi b"
    using b by (rule power_int_increasing) simp
  with lo have tiny: "2 powi (- 1074) \<le> x" by simp
  have "(2::rat) powi b < 2 powi (binade x + 1)"
    using lo binade_less [OF tiny] by simp
  then have "b < binade x + 1"
    by (metis linorder_not_less one_le_numeral power_int_increasing)
  moreover have "(2::rat) powi (binade x) < 2 powi (b + 1)"
    using hi binade_le [OF tiny] by simp
  then have "binade x < b + 1"
    by (metis linorder_not_less one_le_numeral power_int_increasing)
  ultimately show ?thesis by simp
qed

lemma tiny_le_one: "(2::rat) powi (- 1074) \<le> 1"
  using power_int_increasing [of "- 1074" 0 "2::rat"] by simp

lemma round_double_on_grid:
  assumes nz: "q \<noteq> 0"
      and grid: "\<bar>q\<bar> / 2 powi (max (binade \<bar>q\<bar> - 52) (- 1074)) = of_int m"
      and fin: "\<bar>q\<bar> < 2 ^ 1024"
  shows "round_double q = Num q"
proof -
  let ?e = "max (binade \<bar>q\<bar> - 52) (- 1074)"
  have p: "(2::rat) powi ?e \<noteq> 0" by simp
  have "of_int (round_half_even (\<bar>q\<bar> / 2 powi ?e)) * 2 powi ?e = of_int m * 2 powi ?e"
    by (simp only: grid round_half_even_int)
  also have "\<dots> = \<bar>q\<bar>" using grid p by (simp add: field_simps)
  finally have v: "of_int (round_half_even (\<bar>q\<bar> / 2 powi ?e)) * 2 powi ?e = \<bar>q\<bar>" .
  have "round_double q = Num (if 0 < q then \<bar>q\<bar> else - \<bar>q\<bar>)"
    unfolding round_double_def Let_def v using nz fin by simp
  then show ?thesis by simp
qed

lemma round_double_integer:
  assumes int: "of_int \<lfloor>q\<rfloor> = q" and bound: "\<bar>q\<bar> \<le> 2 ^ 53"
  shows "round_double q = Num q"
proof (cases "q = 0")
  case True
  then show ?thesis by (simp add: round_double_def)
next
  case False
  define j where "j = \<bar>\<lfloor>q\<rfloor>\<bar>"
  have x: "\<bar>q\<bar> = of_int j" unfolding j_def using int by (metis of_int_abs)
  have "j \<noteq> 0" using False x by auto
  then have j1: "1 \<le> j" unfolding j_def by simp
  then have x1: "1 \<le> \<bar>q\<bar>" unfolding x by simp
  with tiny_le_one have tiny: "2 powi (- 1074) \<le> \<bar>q\<bar>" by simp
  define b where "b = binade \<bar>q\<bar>"
  have lo: "2 powi b \<le> \<bar>q\<bar>" unfolding b_def using tiny by (rule binade_le)
  have hi: "\<bar>q\<bar> < 2 powi (b + 1)" unfolding b_def using tiny by (rule binade_less)
  have "(2::rat) powi 0 < 2 powi (b + 1)" using x1 hi by simp
  then have "0 < b + 1"
    by (metis linorder_not_less one_le_numeral power_int_increasing)
  then have b0: "0 \<le> b" by simp
  have "(2::rat) powi b \<le> 2 powi 53" using lo bound by simp
  then have b53: "b \<le> 53" by (rule power_int_le_imp_le_exp [rotated]) simp_all
  have e: "max (b - 52) (- 1074) = b - 52" using b0 by simp
  have fin: "\<bar>q\<bar> < 2 ^ 1024"
  proof -
    have "(2::rat) ^ 53 < 2 ^ 1024" by (rule power_strict_increasing) simp_all
    with bound show ?thesis by simp
  qed
  have "\<exists>m. \<bar>q\<bar> / 2 powi (b - 52) = of_int m"
  proof (cases "b \<le> 52")
    case True
    define n where "n = nat (52 - b)"
    have "(2::rat) powi (b - 52) = inverse (2 powi (52 - b))"
      using power_int_minus [of "2::rat" "52 - b"] by simp
    also have "2 powi (52 - b) = (2::rat) ^ n"
      unfolding n_def using True by (simp add: power_int_nonneg_exp)
    finally have "\<bar>q\<bar> / 2 powi (b - 52) = of_int j * 2 ^ n"
      unfolding x by (simp add: field_simps)
    also have "\<dots> = of_int (j * 2 ^ n)" by simp
    finally show ?thesis by blast
  next
    case False
    with b53 have b: "b = 53" by simp
    have "\<bar>q\<bar> = 2 ^ 53" using lo bound unfolding b by simp
    then have "\<bar>q\<bar> / 2 powi (b - 52) = of_int (2 ^ 52)" unfolding b by simp
    then show ?thesis by blast
  qed
  then obtain m where g: "\<bar>q\<bar> / 2 powi (max (binade \<bar>q\<bar> - 52) (- 1074)) = of_int m"
    using e unfolding b_def by auto
  show ?thesis by (rule round_double_on_grid [OF False g fin])
qed

lemma scale_le:
  assumes "2 powi (- 1074) \<le> x"
  shows "2 powi (max (binade x - 52) (- 1074)) \<le> x"
proof (cases "binade x - 52 \<le> - 1074")
  case True
  then have "max (binade x - 52) (- 1074) = - 1074" by simp
  with assms show ?thesis by simp
next
  case False
  then have e: "max (binade x - 52) (- 1074) = binade x - 52" by simp
  have "(2::rat) powi (binade x - 52) \<le> 2 powi (binade x)"
    by (rule power_int_increasing) simp_all
  also have "\<dots> \<le> x" using assms by (rule binade_le)
  finally show ?thesis unfolding e .
qed

lemma round_double_positive:
  assumes "2 powi (- 1074) \<le> x"
  shows "round_double x = Infinity \<or> (\<exists>v. 0 < v \<and> round_double x = Num v)"
proof -
  let ?e = "max (binade x - 52) (- 1074)"
  have "(0::rat) < 2 powi (- 1074)" by simp
  with assms have xpos: "0 < x" by simp
  then have ax: "\<bar>x\<bar> = x" by simp
  have p: "(0::rat) < 2 powi ?e" by simp
  have "1 \<le> x / 2 powi ?e" using scale_le [OF assms] p by (simp add: field_simps)
  then have "1 \<le> round_half_even (x / 2 powi ?e)" by (rule round_half_even_ge)
  then have "(0::rat) < of_int (round_half_even (x / 2 powi ?e))" by simp
  then have v: "(0::rat) < of_int (round_half_even (x / 2 powi ?e)) * 2 powi ?e"
    using p by (rule mult_pos_pos)
  show ?thesis
    unfolding round_double_def Let_def ax using xpos v by auto
qed

lemma round_double_uminus:
  "round_double (- q) =
     (case round_double q of Num v \<Rightarrow> Num (- v) | Infinity \<Rightarrow> MinusInfinity
      | MinusInfinity \<Rightarrow> Infinity | NaN \<Rightarrow> NaN)"
  unfolding round_double_def Let_def by (cases "q = 0"; cases "0 < q") auto

lemma double_on_grid:
  assumes "is_double a"
  shows "\<exists>j. a = of_int j * 2 powi (- 1074)"
proof (cases "a = 0")
  case True
  then have "a = of_int 0 * 2 powi (- 1074)" by simp
  then show ?thesis by blast
next
  case False
  define e where "e = max (binade \<bar>a\<bar> - 52) (- 1074)"
  define m where "m = round_half_even (\<bar>a\<bar> / 2 powi e)"
  define n where "n = nat (e + 1074)"
  have "- 1074 \<le> e" unfolding e_def by (rule max.cobounded2)
  then have "e = int n + (- 1074)" unfolding n_def by simp
  then have "(2::rat) powi e = 2 powi (int n) * 2 powi (- 1074)"
    by (simp only: power_int_add [of "2::rat", simplified])
  then have pw: "(2::rat) powi e = of_int (2 ^ n) * 2 powi (- 1074)"
    by (simp add: power_int_of_nat)
  have "Num a = round_double a" using assms by (simp add: is_double_def)
  then have "a = of_int m * 2 powi e \<or> a = - (of_int m * 2 powi e)"
    unfolding round_double_def Let_def m_def e_def using False by (auto split: if_splits)
  then have "a = of_int (m * 2 ^ n) * 2 powi (- 1074) \<or>
             a = of_int (- (m * 2 ^ n)) * 2 powi (- 1074)"
    unfolding pw by simp
  then show ?thesis by blast
qed

lemma round_double_zero: "round_double 0 = Num 0"
  by (simp add: round_double_def)

lemma round_double_2_53_plus_1: "round_double (2 ^ 53 + 1) = Num (2 ^ 53)"
proof -
  define q :: rat where "q = 2 ^ 53 + 1"
  have pos: "0 < q" unfolding q_def by simp
  then have aq: "\<bar>q\<bar> = q" by simp
  have b: "binade q = 53" by (rule binade_eq) (simp_all add: q_def)
  have e: "max (binade q - 52) (- 1074) = 1" unfolding b by simp
  have r: "round_half_even (q / 2 powi 1) = 2 ^ 52"
    using round_half_even_tie [of "2 ^ 52"] by (simp add: q_def)
  have v: "of_int (round_half_even (q / 2 powi 1)) * 2 powi 1 = (2::rat) ^ 53"
    unfolding r by simp
  have "round_double q = Num (2 ^ 53)"
    unfolding round_double_def Let_def aq e v using pos by simp
  then show ?thesis unfolding q_def .
qed

section \<open>Flattening\<close>

lemma foldl_append_acc:
  "foldl (\<lambda>acc e. acc @ f e) acc xs = acc @ concat (map f xs)"
  by (induction xs arbitrary: acc) auto

lemma getFlatValues_Batch:
  "getFlatValues (Batch elements) = concat (map getFlatValues elements)"
  by (simp add: foldl_append_acc)

lemma leaves_dfs_append:
  "leaves_dfs (xs @ ys) = leaves_dfs xs @ leaves_dfs ys"
  by (induction xs rule: leaves_dfs.induct) auto

lemma leaves_dfs_concat:
  "leaves_dfs stack = concat (map getFlatValues stack)"
proof (induction stack rule: leaves_dfs.induct)
  case 1
  show ?case by simp
next
  case (2 v rest)
  then show ?case by simp
next
  case (3 elements rest)
  then show ?case by (simp add: foldl_append_acc)
qed

text \<open>
  C9. For every container, \<open>getFlatValues\<close> returns exactly the scalar leaves met in a
  left-to-right, depth-first traversal of the container, and the flat values of
  \<open>Scalar v\<close> are the one-element sequence \<open>[v]\<close>.
\<close>

theorem getFlatValues_is_depth_first:
  "getFlatValues c = leaves_dfs [c] \<and> getFlatValues (Scalar v) = [v]"
  by (simp add: leaves_dfs_concat foldl_append_acc)

section \<open>Filtering\<close>

lemma foldl_conj: "foldl (\<lambda>a x. a \<and> f x) a xs = (a \<and> (\<forall>x\<in>set xs. f x))"
  by (induction xs arbitrary: a) auto

lemma foldl_disj: "foldl (\<lambda>a x. a \<or> f x) a xs = (a \<or> (\<exists>x\<in>set xs. f x))"
  by (induction xs arbitrary: a) auto

lemma doesPassFilter_AND_Batch:
  "doesPassFilter AND (Batch elements) p = (\<forall>inner\<in>set elements. doesPassFilter AND inner p)"
  by (simp add: foldl_conj)

lemma doesPassFilter_OR_Batch:
  "doesPassFilter OR (Batch elements) p = (\<exists>inner\<in>set elements. doesPassFilter OR inner p)"
  by (simp add: foldl_disj)

lemma set_getFlatValues_Batch:
  "set (getFlatValues (Batch elements)) = (\<Union>inner\<in>set elements. set (getFlatValues inner))"
  by (simp add: foldl_append_acc)

lemma doesPassFilter_AND_flat:
  "doesPassFilter AND c p = (\<forall>v\<in>set (getFlatValues c). p v)"
proof (induction c)
  case (Scalar v)
  show ?case by simp
next
  case (Batch elements)
  have "doesPassFilter AND (Batch elements) p = (\<forall>inner\<in>set elements. doesPassFilter AND inner p)"
    by (rule doesPassFilter_AND_Batch)
  also have "\<dots> = (\<forall>inner\<in>set elements. \<forall>v\<in>set (getFlatValues inner). p v)"
    using Batch.IH by blast
  also have "\<dots> = (\<forall>v\<in>set (getFlatValues (Batch elements)). p v)"
    unfolding set_getFlatValues_Batch by blast
  finally show ?case .
qed

lemma doesPassFilter_OR_flat:
  "doesPassFilter OR c p = (\<exists>v\<in>set (getFlatValues c). p v)"
proof (induction c)
  case (Scalar v)
  show ?case by simp
next
  case (Batch elements)
  have "doesPassFilter OR (Batch elements) p = (\<exists>inner\<in>set elements. doesPassFilter OR inner p)"
    by (rule doesPassFilter_OR_Batch)
  also have "\<dots> = (\<exists>inner\<in>set elements. \<exists>v\<in>set (getFlatValues inner). p v)"
    using Batch.IH by blast
  also have "\<dots> = (\<exists>v\<in>set (getFlatValues (Batch elements)). p v)"
    unfolding set_getFlatValues_Batch by blast
  finally show ?case .
qed

text \<open>
  C10. For every container \<open>c\<close> and predicate \<open>p\<close>, the recursive pass test under the AND
  policy holds if and only if every flat value of \<open>c\<close> satisfies \<open>p\<close>, and under the OR
  policy if and only if at least one flat value of \<open>c\<close> satisfies \<open>p\<close>.
\<close>

theorem filter_quantifies_over_flat_values:
  "(doesPassFilter AND c p \<longleftrightarrow> (\<forall>v\<in>set (getFlatValues c). p v)) \<and>
   (doesPassFilter OR c p \<longleftrightarrow> (\<exists>v\<in>set (getFlatValues c). p v))"
  using doesPassFilter_AND_flat doesPassFilter_OR_flat by blast

text \<open>Both equivalences at nested batches, with both sides true.\<close>

theorem filter_quantifies_over_flat_values_witness:
  "doesPassFilter AND (Batch [Scalar (Num 1), Batch [Scalar (Num 2)]]) (\<lambda>v. greater v (Num 0)) \<and>
   list_all (\<lambda>v. greater v (Num 0))
     (getFlatValues (Batch [Scalar (Num 1), Batch [Scalar (Num 2)]])) \<and>
   doesPassFilter OR (Batch [Scalar (Num (-1)), Batch [Scalar (Num 2)]]) (\<lambda>v. greater v (Num 0)) \<and>
   (\<exists>v\<in>set (getFlatValues (Batch [Scalar (Num (-1)), Batch [Scalar (Num 2)]])). greater v (Num 0))"
  using filter_quantifies_over_flat_values
          [of "Batch [Scalar (Num 1), Batch [Scalar (Num 2)]]" "\<lambda>v. greater v (Num 0)"]
        filter_quantifies_over_flat_values
          [of "Batch [Scalar (Num (-1)), Batch [Scalar (Num 2)]]" "\<lambda>v. greater v (Num 0)"]
  by simp

text \<open>
  C5. For every container, the filter under the AND policy aggregates the recursive results
  of the members of a batch by conjunction, so that an empty batch passes, and under the
  OR policy by disjunction, so that an empty batch is swallowed; a scalar is tested by the
  predicate, and the block returns its argument when the test passes and \<open>null\<close>
  otherwise. For the batch of 1 and -1 and the predicate \<open>v > 0\<close>, AND swallows and OR
  returns the batch.
\<close>

theorem filter_policies:
  "(doesPassFilter AND (Batch elements) p \<longleftrightarrow> (\<forall>inner\<in>set elements. doesPassFilter AND inner p)) \<and>
   (doesPassFilter OR (Batch elements) p \<longleftrightarrow> (\<exists>inner\<in>set elements. doesPassFilter OR inner p)) \<and>
   doesPassFilter policy (Scalar v) p = p v \<and>
   outcome_of (filter_block p policy) c =
     Returned (if doesPassFilter policy c p then Some c else None) \<and>
   outcome_of (filter_block p AND) (Batch []) = Returned (Some (Batch [])) \<and>
   outcome_of (filter_block p OR) (Batch []) = Returned None \<and>
   outcome_of (filter_block (\<lambda>v. greater v (Num 0)) AND) (Batch [Scalar (Num 1), Scalar (Num (-1))])
     = Returned None \<and>
   outcome_of (filter_block (\<lambda>v. greater v (Num 0)) OR) (Batch [Scalar (Num 1), Scalar (Num (-1))])
     = Returned (Some (Batch [Scalar (Num 1), Scalar (Num (-1))]))"
  using doesPassFilter_AND_Batch [of elements p] doesPassFilter_OR_Batch [of elements p]
  by simp

text \<open>The two aggregations at batches where both sides are true.\<close>

theorem filter_policies_witness:
  "doesPassFilter AND (Batch [Scalar (Num 1), Scalar (Num 2)]) (\<lambda>v. greater v (Num 0)) \<and>
   list_all (\<lambda>inner. doesPassFilter AND inner (\<lambda>v. greater v (Num 0)))
     [Scalar (Num 1), Scalar (Num 2)] \<and>
   doesPassFilter OR (Batch [Scalar (Num 1), Scalar (Num (-1))]) (\<lambda>v. greater v (Num 0)) \<and>
   (\<exists>inner\<in>set [Scalar (Num 1), Scalar (Num (-1))]. doesPassFilter OR inner (\<lambda>v. greater v (Num 0)))"
  using filter_policies [of "[Scalar (Num 1), Scalar (Num 2)]" "\<lambda>v. greater v (Num 0)"]
        filter_policies [of "[Scalar (Num 1), Scalar (Num (-1))]" "\<lambda>v. greater v (Num 0)"]
  by simp

section \<open>The sum fold\<close>

lemma sum_list_abs_nonneg: "0 \<le> sum_list (map abs (ks :: int list))"
  by (induction ks) simp_all

lemma add_integers:
  assumes "\<bar>a + b\<bar> \<le> (2::int) ^ 53"
  shows "add (Num (of_int a)) (Num (of_int b)) = Num (of_int (a + b))"
proof -
  have "\<bar>(of_int (a + b) :: rat)\<bar> \<le> of_int (2 ^ 53)"
    using assms by (simp only: of_int_abs [symmetric] of_int_le_iff)
  then have "\<bar>(of_int (a + b) :: rat)\<bar> \<le> 2 ^ 53" by simp
  then have "round_double (of_int (a + b)) = Num (of_int (a + b))"
    by (intro round_double_integer) simp_all
  then show ?thesis by simp
qed

lemma concat_eq_map_conv:
  "concat xss = map g ks \<Longrightarrow> \<exists>kss. ks = concat kss \<and> xss = map (map g) kss"
proof (induction xss arbitrary: ks)
  case Nil
  then have "ks = concat [] \<and> [] = map (map g) []" by simp
  then show ?case by blast
next
  case (Cons xs xss)
  then have "xs @ concat xss = map g ks" by simp
  then obtain ks1 ks2 where ks: "ks = ks1 @ ks2" and xs: "xs = map g ks1"
      and rest: "concat xss = map g ks2"
    by (auto simp: append_eq_map_conv)
  from Cons.IH [OF rest] obtain kss where "ks2 = concat kss" "xss = map (map g) kss"
    by blast
  with ks xs have "ks = concat (ks1 # kss) \<and> xs # xss = map (map g) (ks1 # kss)" by simp
  then show ?case by (rule exI)
qed

lemma fold_sum_exact:
  assumes "\<And>e ks. e \<in> set els \<Longrightarrow> getFlatValues e = map (\<lambda>k. Num (of_int k)) ks \<Longrightarrow>
             sum_list (map abs ks) \<le> 2 ^ 53 \<Longrightarrow> getSumOfValues e = Num (of_int (sum_list ks))"
      and "map getFlatValues els = map (map (\<lambda>k. Num (of_int k))) kss"
      and "\<bar>a\<bar> + sum_list (map abs (concat kss)) \<le> 2 ^ 53"
  shows "foldl (\<lambda>aggregator element. add aggregator (getSumOfValues element))
           (Num (of_int a)) els = Num (of_int (a + sum_list (concat kss)))"
  using assms
proof (induction els arbitrary: a kss)
  case Nil
  then show ?case by simp
next
  case (Cons e els)
  from Cons.prems(2) obtain ks kss' where kss: "kss = ks # kss'"
      and flat: "getFlatValues e = map (\<lambda>k. Num (of_int k)) ks"
      and rest: "map getFlatValues els = map (map (\<lambda>k. Num (of_int k))) kss'"
    by (cases kss) auto
  have bound: "\<bar>a\<bar> + sum_list (map abs ks) + sum_list (map abs (concat kss')) \<le> 2 ^ 53"
    using Cons.prems(3) unfolding kss by simp
  have nn: "0 \<le> sum_list (map abs (concat kss'))" "0 \<le> sum_list (map abs ks)"
    by (rule sum_list_abs_nonneg)+
  have tri: "\<bar>sum_list ks\<bar> \<le> sum_list (map abs ks)" by (rule sum_list_abs)
  have "sum_list (map abs ks) \<le> 2 ^ 53" using bound nn by linarith
  then have se: "getSumOfValues e = Num (of_int (sum_list ks))"
    using Cons.prems(1) [of e ks] flat by simp
  have "\<bar>a + sum_list ks\<bar> \<le> 2 ^ 53" using bound nn tri by linarith
  then have step: "add (Num (of_int a)) (getSumOfValues e) = Num (of_int (a + sum_list ks))"
    unfolding se by (rule add_integers)
  have b': "\<bar>a + sum_list ks\<bar> + sum_list (map abs (concat kss')) \<le> 2 ^ 53"
    using bound tri by linarith
  have "foldl (\<lambda>aggregator element. add aggregator (getSumOfValues element))
          (Num (of_int (a + sum_list ks))) els
        = Num (of_int (a + sum_list ks + sum_list (concat kss')))"
    using Cons.prems(1) rest b' by (intro Cons.IH) simp_all
  then show ?case unfolding kss using step by (simp add: add.assoc)
qed

lemma getSumOfValues_exact:
  "getFlatValues c = map (\<lambda>k. Num (of_int k)) ks \<Longrightarrow> sum_list (map abs ks) \<le> 2 ^ 53 \<Longrightarrow>
   getSumOfValues c = Num (of_int (sum_list ks))"
proof (induction c arbitrary: ks)
  case (Scalar v)
  then show ?case by (cases ks) auto
next
  case (Batch elements)
  have "concat (map getFlatValues elements) = map (\<lambda>k. Num (of_int k)) ks"
    using Batch.prems(1) by (simp add: foldl_append_acc)
  then obtain kss where ks: "ks = concat kss"
      and split: "map getFlatValues elements = map (map (\<lambda>k. Num (of_int k))) kss"
    using concat_eq_map_conv by blast
  have "foldl (\<lambda>aggregator element. add aggregator (getSumOfValues element))
          (Num (of_int 0)) elements = Num (of_int (0 + sum_list (concat kss)))"
  proof (rule fold_sum_exact)
    show "map getFlatValues elements = map (map (\<lambda>k. Num (of_int k))) kss" by (rule split)
    show "\<bar>0\<bar> + sum_list (map abs (concat kss)) \<le> 2 ^ 53"
      using Batch.prems(2) ks by simp
    show "getSumOfValues e = Num (of_int (sum_list ks'))"
      if "e \<in> set elements" "getFlatValues e = map (\<lambda>k. Num (of_int k)) ks'"
        "sum_list (map abs ks') \<le> 2 ^ 53" for e ks'
      using that by (rule Batch.IH)
  qed
  then show ?case using ks by simp
qed

lemma sum_example:
  "getSumOfValues (Batch [Scalar (Num 1), Batch [Scalar (Num 2), Scalar (Num 3)]]) = Num 6"
  by (simp add: round_double_integer round_double_zero)

lemma sum_rounds:
  "getSumOfValues (Batch [Scalar (Num (2 ^ 53)), Scalar (Num 1)]) = Num (2 ^ 53)"
  using round_double_2_53_plus_1 by (simp add: round_double_integer)

text \<open>
  C7, as the code has it. For every batch, the sum fold returns the scalar of the double
  sum, taken from 0 and in order, of the sums of its members, which are computed the same
  way at every depth; a scalar is returned with its own value. When the leaves are
  integers whose absolute values add up to at most \<open>2^53\<close>, nothing is rounded and the
  result is the sum of all the leaves. The batch of 1 and the batch of 2 and 3 gives 6.
\<close>

theorem foldSum_sums_all_leaves:
  "outcome_of foldSum (Batch elements) =
     Returned (Some (Scalar (foldl add (Num 0) (map getSumOfValues elements)))) \<and>
   (getFlatValues c = map (\<lambda>k. Num (of_int k)) ks \<and> sum_list (map abs ks) \<le> 2 ^ 53 \<longrightarrow>
      outcome_of foldSum c = Returned (Some (Scalar (Num (of_int (sum_list ks)))))) \<and>
   outcome_of foldSum (Scalar v) = Returned (Some (Scalar v)) \<and>
   outcome_of foldSum (Batch [Scalar (Num 1), Batch [Scalar (Num 2), Scalar (Num 3)]])
     = Returned (Some (Scalar (Num 6)))"
proof -
  have nested: "getSumOfValues (Batch elements)
                = foldl add (Num 0) (map getSumOfValues elements)"
    by (simp add: foldl_map)
  have exact: "getSumOfValues c = Num (of_int (sum_list ks))"
    if "getFlatValues c = map (\<lambda>k. Num (of_int k)) ks" "sum_list (map abs ks) \<le> 2 ^ 53"
    using that by (rule getSumOfValues_exact)
  show ?thesis using nested exact sum_example by simp
qed

text \<open>The nested batch of the example has the integer leaves 1, 2, 3.\<close>

theorem foldSum_sums_all_leaves_witness:
  "getFlatValues (Batch [Scalar (Num 1), Batch [Scalar (Num 2), Scalar (Num 3)]])
     = map (\<lambda>k. Num (of_int k)) [1, 2, 3] \<and>
   sum_list (map abs [1, 2, 3]) \<le> (2::int) ^ 53 \<and>
   outcome_of foldSum (Batch [Scalar (Num 1), Batch [Scalar (Num 2), Scalar (Num 3)]])
     = Returned (Some (Scalar (Num (of_int (sum_list [1, 2, 3])))))"
  using foldSum_sums_all_leaves
          [of "[]" "Batch [Scalar (Num 1), Batch [Scalar (Num 2), Scalar (Num 3)]]" "[1, 2, 3]"]
  by simp

text \<open>
  C7 as stated fails where the sum is rounded: \<open>2^53\<close> and 1 are doubles, and the fold
  returns \<open>2^53\<close> for the batch of the two, which is not their sum.
\<close>

theorem foldSum_rounds:
  "is_double (2 ^ 53) \<and> is_double 1 \<and>
   sum_list [2 ^ 53, 1 :: rat] = 2 ^ 53 + 1 \<and>
   outcome_of foldSum (Batch [Scalar (Num (2 ^ 53)), Scalar (Num 1)])
     = Returned (Some (Scalar (Num (2 ^ 53))))"
  using sum_rounds by (simp add: is_double_def round_double_integer)

section \<open>The median fold\<close>

lemma round_double_negative:
  assumes "x \<le> - (2 powi (- 1074))"
  shows "round_double x = MinusInfinity \<or> (\<exists>v. v < 0 \<and> round_double x = Num v)"
proof -
  have "2 powi (- 1074) \<le> - x" using assms by simp
  from round_double_positive [OF this] show ?thesis
  proof
    assume "round_double (- x) = Infinity"
    then show ?thesis using round_double_uminus [of "- x"] by simp
  next
    assume "\<exists>v. 0 < v \<and> round_double (- x) = Num v"
    then obtain v where "0 < v" "round_double (- x) = Num v" by blast
    then have "- v < 0 \<and> round_double x = Num (- v)"
      using round_double_uminus [of "- x"] by simp
    then show ?thesis by blast
  qed
qed

lemma compare_doubles:
  assumes a: "is_double a" and b: "is_double b"
  shows "greater (SortCompare (\<lambda>x y. sub x y) (Num a) (Num b)) (Num 0) = (b < a)"
proof -
  let ?u = "(2::rat) powi (- 1074)"
  have u: "0 < ?u" by simp
  obtain i where i: "a = of_int i * ?u" using double_on_grid [OF a] by blast
  obtain j where j: "b = of_int j * ?u" using double_on_grid [OF b] by blast
  have diff: "a - b = of_int (i - j) * ?u" unfolding i j by (simp add: algebra_simps)
  consider (eq) "a = b" | (gt) "b < a" | (lt) "a < b" by linarith
  then show ?thesis
  proof cases
    case eq
    then show ?thesis by (simp add: SortCompare_def round_double_zero)
  next
    case gt
    then have "0 < of_int (i - j) * ?u" unfolding diff [symmetric] by simp
    then have "0 < i - j" using u by (simp add: zero_less_mult_iff)
    then have "(1::rat) \<le> of_int (i - j)" by simp
    then have "1 * ?u \<le> of_int (i - j) * ?u" using u by (intro mult_right_mono) simp_all
    then have "?u \<le> a - b" unfolding diff by simp
    from round_double_positive [OF this] show ?thesis
      using gt by (auto simp: SortCompare_def)
  next
    case lt
    then have "of_int (i - j) * ?u < 0" unfolding diff [symmetric] by simp
    then have "i - j < 0" using u by (simp add: mult_less_0_iff)
    then have "of_int (i - j) \<le> (- 1::rat)" by simp
    then have "of_int (i - j) * ?u \<le> (- 1) * ?u" using u by (intro mult_right_mono) simp_all
    then have "a - b \<le> - ?u" unfolding diff by simp
    from round_double_negative [OF this] show ?thesis
      using lt by (auto simp: SortCompare_def)
  qed
qed

lemma length_insert_sorted: "length (insert_sorted comparefn x ys) = Suc (length ys)"
  by (induction ys) simp_all

lemma length_array_sort: "length (array_sort comparefn xs) = length xs"
  unfolding array_sort_def by (induction xs) (simp_all add: length_insert_sorted)

lemma insert_sorted_Num:
  "is_double q \<Longrightarrow> list_all is_double qs \<Longrightarrow>
   insert_sorted (\<lambda>x y. sub x y) (Num q) (map Num qs) = map Num (insort q qs)"
proof (induction qs)
  case Nil
  show ?case by simp
next
  case (Cons p qs)
  then have cmp: "greater (SortCompare (\<lambda>x y. sub x y) (Num q) (Num p)) (Num 0) = (p < q)"
    by (intro compare_doubles) simp_all
  show ?case using Cons cmp by auto
qed

lemma array_sort_Num:
  "list_all is_double qs \<Longrightarrow> array_sort (\<lambda>x y. sub x y) (map Num qs) = map Num (sort qs)"
proof (induction qs)
  case Nil
  show ?case by (simp add: array_sort_def)
next
  case (Cons q qs)
  then have rest: "array_sort (\<lambda>x y. sub x y) (map Num qs) = map Num (sort qs)" by simp
  have "list_all is_double (sort qs)" using Cons.prems by (simp add: list_all_iff)
  then have "insert_sorted (\<lambda>x y. sub x y) (Num q) (map Num (sort qs))
             = map Num (insort q (sort qs))"
    using Cons.prems by (intro insert_sorted_Num) simp_all
  then show ?case using rest by (simp add: array_sort_def)
qed

lemma odd_read_in_bounds:
  "int (length values) mod 2 \<noteq> 0 \<Longrightarrow> in_bounds values ((int (length values) - 1) div 2)"
  unfolding in_bounds_def by presburger

lemma even_reads_in_bounds:
  "int (length values) mod 2 = 0 \<Longrightarrow> values \<noteq> [] \<Longrightarrow>
   in_bounds values (int (length values) div 2) \<and> in_bounds values (int (length values) div 2 - 1)"
proof -
  assume "int (length values) mod 2 = 0" and "values \<noteq> []"
  then have "0 < int (length values)" by simp
  with \<open>int (length values) mod 2 = 0\<close> show ?thesis
    unfolding in_bounds_def by presburger
qed

lemma median_reads_in_bounds:
  "(\<forall>i\<in>set (median_reads values). in_bounds values i) \<longleftrightarrow> values \<noteq> []"
proof (cases "values = []")
  case True
  then show ?thesis by (simp add: median_reads_def in_bounds_def)
next
  case False
  then show ?thesis
    using odd_read_in_bounds [of "values"] even_reads_in_bounds [of "values"]
    by (simp add: median_reads_def Let_def)
qed

lemma getFlatValues_Batch_empty:
  "getFlatValues (Batch elements) = [] \<Longrightarrow> getMedianOfValues (Batch elements) = NaN"
  by (simp add: array_sort_def index_def in_bounds_def)


lemma getMedianOfValues_reads:
  "getMedianOfValues (Batch elements) =
     (let values = array_sort (\<lambda>x y. sub x y) (getFlatValues (Batch elements))
      in case map (index values) (median_reads values) of
           [x, y] \<Rightarrow> mul (Num (1 / 2)) (add (ToNumber x) (ToNumber y))
         | _ \<Rightarrow> ToNumber (index values ((int (length values) - 1) div 2)))"
  by (simp add: median_reads_def Let_def del: getFlatValues.simps)

lemma getMedianOfValues_sorted:
  assumes flat: "getFlatValues (Batch elements) = map Num qs" and ne: "qs \<noteq> []"
      and dbl: "list_all is_double qs"
  shows "getMedianOfValues (Batch elements) =
     (if even (length qs)
      then mul (Num (1 / 2)) (add (Num (sort qs ! (length qs div 2)))
                                  (Num (sort qs ! (length qs div 2 - 1))))
      else Num (sort qs ! (length qs div 2)))"
proof -
  define s where "s = sort qs"
  define n where "n = length qs"
  have len: "length s = n" by (simp add: s_def n_def)
  have pos: "0 < n" using ne by (simp add: n_def)
  have vals: "array_sort (\<lambda>x y. sub x y) (getFlatValues (Batch elements)) = map Num s"
    unfolding flat s_def using dbl by (rule array_sort_Num)
  show ?thesis
  proof (cases "even n")
    case True
    then have n2: "2 \<le> n" using pos by presburger
    have i1: "nat (int n div 2) = n div 2" by simp
    have i2: "nat (int n div 2 - 1) = n div 2 - 1" by simp
    have "0 \<le> int n div 2 \<and> int n div 2 < int n \<and> 0 \<le> int n div 2 - 1 \<and> int n div 2 - 1 < int n"
      using n2 by presburger
    then have b1: "in_bounds (map Num s) (int n div 2)"
      and b2: "in_bounds (map Num s) (int n div 2 - 1)"
      using len unfolding in_bounds_def by simp_all
    have lt1: "n div 2 < length s" using n2 len by simp
    have lt2: "n div 2 - 1 < length s" using n2 len by simp
    have md: "int n mod 2 = 0" using True by presburger
    have "getMedianOfValues (Batch elements)
          = mul (Num (1 / 2)) (add (Num (s ! (n div 2))) (Num (s ! (n div 2 - 1))))"
      unfolding getMedianOfValues.simps vals
      using b1 b2 lt1 lt2 md
      by (simp add: Let_def len index_def i1 i2 del: getFlatValues.simps add.simps mul.simps)
    then show ?thesis using True unfolding s_def n_def by simp
  next
    case False
    have i1: "nat ((int n - 1) div 2) = n div 2" using False by (auto elim!: oddE)
    have "0 \<le> (int n - 1) div 2 \<and> (int n - 1) div 2 < int n"
      using pos by presburger
    then have b1: "in_bounds (map Num s) ((int n - 1) div 2)"
      using len unfolding in_bounds_def by simp
    have lt1: "n div 2 < length s" using pos len by simp
    have md: "int n mod 2 \<noteq> 0" using False by presburger
    have "getMedianOfValues (Batch elements) = Num (s ! (n div 2))"
      unfolding getMedianOfValues.simps vals
      using b1 lt1 md by (simp add: Let_def len index_def i1 del: getFlatValues.simps)
    then show ?thesis using False unfolding s_def n_def by simp
  qed
qed

lemma getMedianOfValues_exact:
  assumes flat: "getFlatValues (Batch elements) = map Num qs" and ne: "qs \<noteq> []"
      and dbl: "list_all is_double qs" and med: "median qs = Some m"
      and exact: "odd (length qs) \<or>
                  is_double (sort qs ! (length qs div 2) + sort qs ! (length qs div 2 - 1)) \<and>
                  is_double m"
  shows "getMedianOfValues (Batch elements) = Num m"
proof (cases "even (length qs)")
  case True
  let ?hi = "sort qs ! (length qs div 2)"
  let ?lo = "sort qs ! (length qs div 2 - 1)"
  have m: "m = (?lo + ?hi) / 2" using med True ne by (simp add: median_def Let_def)
  have s: "round_double (?hi + ?lo) = Num (?hi + ?lo)"
    and h: "round_double m = Num m"
    using exact True by (simp_all add: is_double_def)
  have "add (Num ?hi) (Num ?lo) = Num (?hi + ?lo)" by (simp only: add.simps s)
  then have "mul (Num (1 / 2)) (add (Num ?hi) (Num ?lo)) = round_double (1 / 2 * (?hi + ?lo))"
    by (simp only: mul.simps)
  also have "1 / 2 * (?hi + ?lo) = m" unfolding m by simp
  finally show ?thesis
    using getMedianOfValues_sorted [OF flat ne dbl] True h by simp
next
  case False
  then have "m = sort qs ! (length qs div 2)"
    using med ne by (simp add: median_def Let_def)
  then show ?thesis using getMedianOfValues_sorted [OF flat ne dbl] False by simp
qed

lemma median_examples:
  "getMedianOfValues (Batch [Scalar (Num 1), Scalar (Num 3)]) = Num 2"
  "getMedianOfValues (Batch [Scalar (Num 1), Scalar (Num 2), Scalar (Num 3)]) = Num 2"
  by (simp_all add: array_sort_def SortCompare_def index_def in_bounds_def
        round_double_integer)

lemma median_rounds:
  "getMedianOfValues (Batch [Scalar (Num 1), Scalar (Num (2 ^ 53))]) = Num (2 ^ 52)"
  using round_double_2_53_plus_1
  by (simp add: array_sort_def SortCompare_def index_def in_bounds_def round_double_integer)

lemma median_of_infinities:
  "getMedianOfValues (Batch [Scalar Infinity, Scalar MinusInfinity]) = NaN"
  by (simp add: array_sort_def SortCompare_def index_def in_bounds_def)

text \<open>
  C6, as the code has it. For every batch whose flat values are a non-empty sequence of
  finite doubles, the median fold sorts them ascending and returns, for an odd count, the
  scalar of the middle element and, for an even count, the scalar of \<open>0.5 * (a + b)\<close> in
  double arithmetic for the two middle elements; that is the median of the sequence
  whenever the count is odd, or the sum of the two middle elements and the half of it are
  doubles, so that nothing is rounded. A scalar is returned with its own value. The batch
  of 1 and 3 gives 2, and the batch of 1, 2, 3 gives 2.
\<close>

theorem foldMedian_is_median:
  "(getFlatValues (Batch elements) = map Num qs \<and> qs \<noteq> [] \<and> list_all is_double qs \<longrightarrow>
      outcome_of foldMedian (Batch elements) =
        Returned (Some (Scalar
          (if even (length qs)
           then mul (Num (1 / 2)) (add (Num (sort qs ! (length qs div 2)))
                                       (Num (sort qs ! (length qs div 2 - 1))))
           else Num (sort qs ! (length qs div 2))))) \<and>
      (median qs = Some m \<and>
       (odd (length qs) \<or>
        is_double (sort qs ! (length qs div 2) + sort qs ! (length qs div 2 - 1)) \<and>
        is_double m) \<longrightarrow>
         outcome_of foldMedian (Batch elements) = Returned (Some (Scalar (Num m))))) \<and>
   outcome_of foldMedian (Scalar v) = Returned (Some (Scalar v)) \<and>
   outcome_of foldMedian (Batch [Scalar (Num 1), Scalar (Num 3)])
     = Returned (Some (Scalar (Num 2))) \<and>
   outcome_of foldMedian (Batch [Scalar (Num 1), Scalar (Num 2), Scalar (Num 3)])
     = Returned (Some (Scalar (Num 2)))"
proof -
  have general: "getMedianOfValues (Batch elements) =
          (if even (length qs)
           then mul (Num (1 / 2)) (add (Num (sort qs ! (length qs div 2)))
                                       (Num (sort qs ! (length qs div 2 - 1))))
           else Num (sort qs ! (length qs div 2)))"
    if "getFlatValues (Batch elements) = map Num qs" "qs \<noteq> []" "list_all is_double qs"
    using that by (rule getMedianOfValues_sorted)
  have exact: "getMedianOfValues (Batch elements) = Num m"
    if "getFlatValues (Batch elements) = map Num qs" "qs \<noteq> []" "list_all is_double qs"
       "median qs = Some m"
       "odd (length qs) \<or>
        is_double (sort qs ! (length qs div 2) + sort qs ! (length qs div 2 - 1)) \<and>
        is_double m"
    using that by (rule getMedianOfValues_exact)
  have "outcome_of foldMedian x = Returned (Some (Scalar (getMedianOfValues x)))" for x
    by simp
  then show ?thesis using general exact median_examples getMedianOfValues.simps(1) [of v]
    by (simp del: getMedianOfValues.simps getFlatValues.simps)
qed

text \<open>
  An unsorted, nested batch with the flat values 3, 1, 2, whose median is 2, and the batch
  of 1 and 3, whose two middle elements add up to 4 and whose median is 2.
\<close>

theorem foldMedian_is_median_witness:
  "getFlatValues (Batch [Scalar (Num 3), Batch [Scalar (Num 1)], Scalar (Num 2)])
     = map Num [3, 1, 2] \<and>
   [3, 1, 2 :: rat] \<noteq> [] \<and> list_all is_double [3, 1, 2] \<and>
   median [3, 1, 2] = Some 2 \<and> odd (length [3, 1, 2 :: rat]) \<and>
   outcome_of foldMedian (Batch [Scalar (Num 3), Batch [Scalar (Num 1)], Scalar (Num 2)])
     = Returned (Some (Scalar (Num 2))) \<and>
   getFlatValues (Batch [Scalar (Num 1), Scalar (Num 3)]) = map Num [1, 3] \<and>
   list_all is_double [1, 3] \<and> median [1, 3] = Some 2 \<and>
   is_double (sort [1, 3] ! (length [1, 3 :: rat] div 2)
              + sort [1, 3] ! (length [1, 3 :: rat] div 2 - 1)) \<and>
   is_double 2 \<and>
   outcome_of foldMedian (Batch [Scalar (Num 1), Scalar (Num 3)])
     = Returned (Some (Scalar (Num 2)))"
  using foldMedian_is_median
          [of "[Scalar (Num 3), Batch [Scalar (Num 1)], Scalar (Num 2)]" "[3, 1, 2]" 2]
        foldMedian_is_median [of "[Scalar (Num 1), Scalar (Num 3)]" "[1, 3]" 2]
  by (simp add: median_def is_double_def round_double_integer)

text \<open>
  C6 as stated fails at the empty batch, whose flat values have no median and for which
  the fold returns the scalar NaN; at the batch of the doubles 1 and \<open>2^53\<close>, whose median
  is \<open>2^52 + 1/2\<close> and for which the fold returns \<open>2^52\<close>, the sum being rounded; and at
  the batch of the two infinities, for which it returns NaN.
\<close>

theorem foldMedian_not_the_median:
  "getFlatValues (Batch []) = map Num [] \<and> median [] = None \<and>
   outcome_of foldMedian (Batch []) = Returned (Some (Scalar NaN)) \<and>
   is_double 1 \<and> is_double (2 ^ 53) \<and>
   median [1, 2 ^ 53] = Some (2 ^ 52 + 1 / 2) \<and>
   outcome_of foldMedian (Batch [Scalar (Num 1), Scalar (Num (2 ^ 53))])
     = Returned (Some (Scalar (Num (2 ^ 52)))) \<and>
   outcome_of foldMedian (Batch [Scalar Infinity, Scalar MinusInfinity])
     = Returned (Some (Scalar NaN))"
proof -
  have "getMedianOfValues (Batch []) = NaN"
    by (simp add: array_sort_def index_def in_bounds_def)
  moreover have "median [1, 2 ^ 53] = Some (2 ^ 52 + 1 / 2)"
    by (simp add: median_def)
  moreover have "median [] = None" by (simp add: median_def)
  moreover have "is_double 1" "is_double (2 ^ 53)"
    by (simp_all add: is_double_def round_double_integer)
  ultimately show ?thesis
    using median_rounds median_of_infinities
    by (simp del: getMedianOfValues.simps)
qed

text \<open>
  C3, as the code has it. For every container the sum fold and the median fold return a
  scalar and throw nothing. For a batch, the reads of the sorted array in the median are
  in bounds exactly when the flat values of the batch are not empty; when they are empty
  the reads are out of range, give \<open>undefined\<close>, and the fold returns the scalar NaN.
\<close>

theorem folds_return_scalars:
  "(\<exists>s. outcome_of foldSum c = Returned (Some (Scalar s))) \<and>
   (\<exists>m. outcome_of foldMedian c = Returned (Some (Scalar m))) \<and>
   ((\<forall>i\<in>set (median_reads (array_sort (\<lambda>x y. sub x y) (getFlatValues (Batch elements)))).
        in_bounds (array_sort (\<lambda>x y. sub x y) (getFlatValues (Batch elements))) i)
      \<longleftrightarrow> getFlatValues (Batch elements) \<noteq> []) \<and>
   (getFlatValues (Batch elements) = [] \<longrightarrow>
      outcome_of foldMedian (Batch elements) = Returned (Some (Scalar NaN)))"
proof -
  have "array_sort (\<lambda>x y. sub x y) (getFlatValues (Batch elements)) \<noteq> []
        \<longleftrightarrow> getFlatValues (Batch elements) \<noteq> []"
    using length_array_sort [of "\<lambda>x y. sub x y" "getFlatValues (Batch elements)"]
    by (metis length_0_conv)
  then show ?thesis
    using median_reads_in_bounds
            [of "array_sort (\<lambda>x y. sub x y) (getFlatValues (Batch elements))"]
          getFlatValues_Batch_empty [of elements]
    by simp
qed

text \<open>A batch with flat values, where the reads are in bounds, and one without.\<close>

theorem folds_return_scalars_witness:
  "getFlatValues (Batch [Scalar (Num 1), Scalar (Num 3)]) \<noteq> [] \<and>
   list_all (in_bounds (array_sort (\<lambda>x y. sub x y)
                          (getFlatValues (Batch [Scalar (Num 1), Scalar (Num 3)]))))
     (median_reads (array_sort (\<lambda>x y. sub x y)
                      (getFlatValues (Batch [Scalar (Num 1), Scalar (Num 3)])))) \<and>
   getFlatValues (Batch [Batch [], Batch []]) = [] \<and>
   outcome_of foldMedian (Batch [Batch [], Batch []]) = Returned (Some (Scalar NaN))"
  using folds_return_scalars [of "Scalar (Num 1)" "[Scalar (Num 1), Scalar (Num 3)]"]
        folds_return_scalars [of "Scalar (Num 1)" "[Batch [], Batch []]"]
  by (simp add: list_all_iff)

text \<open>
  C3 as stated fails at the empty batch: the median reads its empty sorted array at the
  indices 0 and -1, both out of bounds.
\<close>

theorem foldMedian_reads_out_of_bounds:
  "median_reads (array_sort (\<lambda>x y. sub x y) (getFlatValues (Batch []))) = [0, - 1] \<and>
   \<not> in_bounds (array_sort (\<lambda>x y. sub x y) (getFlatValues (Batch []))) 0 \<and>
   \<not> in_bounds (array_sort (\<lambda>x y. sub x y) (getFlatValues (Batch []))) (- 1) \<and>
   outcome_of foldMedian (Batch []) = Returned (Some (Scalar NaN))"
  by (simp add: median_reads_def array_sort_def index_def in_bounds_def)

section \<open>The executor and the window\<close>

lemma run_null:
  "runBuildingBlocks None fs =
     \<lparr>element = None, blocks = fs, console = [], calls = [], uncaught = False\<rparr>"
  by (induction fs) (simp_all add: Let_def)

lemma uncaught_run_ends:
  "uncaught (runBuildingBlocks x fs) \<Longrightarrow> element (runBuildingBlocks x fs) = None"
  by (induction x fs rule: runBuildingBlocks.induct)
     (simp_all add: Let_def run_null split: outcome.splits thrown.splits)

lemma run_append:
  "runBuildingBlocks x (before @ rest) =
     (if uncaught (runBuildingBlocks x before)
      then (runBuildingBlocks x before)\<lparr>blocks := blocks (runBuildingBlocks x before) @ rest\<rparr>
      else
     \<lparr>element = element (runBuildingBlocks (element (runBuildingBlocks x before)) rest),
      blocks = blocks (runBuildingBlocks x before)
               @ blocks (runBuildingBlocks (element (runBuildingBlocks x before)) rest),
      console = console (runBuildingBlocks x before)
               @ console (runBuildingBlocks (element (runBuildingBlocks x before)) rest),
      calls = calls (runBuildingBlocks x before)
               @ calls (runBuildingBlocks (element (runBuildingBlocks x before)) rest),
      uncaught = uncaught (runBuildingBlocks (element (runBuildingBlocks x before)) rest)\<rparr>)"
proof (induction x before rule: runBuildingBlocks.induct)
  case (1 el)
  show ?case by simp
next
  case (2 block rest')
  show ?case by (simp add: run_null)
next
  case (3 el block rest')
  show ?case
  proof (cases "outcome_of block el")
    case (Returned el')
    with 3(1) [of el'] show ?thesis by (simp add: Let_def)
  next
    case (Thrown err)
    show ?thesis
    proof (cases err)
      case (WithMessage message)
      with Thrown 3(2) [of err message] show ?thesis by (simp add: Let_def)
    next
      case Nullish
      with Thrown show ?thesis by simp
    qed
  qed
qed

lemma length_blocks_run: "length (blocks (runBuildingBlocks x fs)) = length fs"
  by (induction x fs rule: runBuildingBlocks.induct)
     (simp_all add: Let_def split: outcome.splits thrown.splits)

lemma calls_of_complete_run:
  "element (runBuildingBlocks x fs) = Some y \<Longrightarrow>
   length (calls (runBuildingBlocks x fs)) = length fs"
  by (induction x fs rule: runBuildingBlocks.induct)
     (simp_all add: Let_def run_null split: outcome.splits thrown.splits)

lemma run_first_call:
  "calls (runBuildingBlocks (Some el) (block # rest)) ! 0 = el"
  by (simp add: Let_def split: outcome.splits thrown.splits)


lemma on_line_number:
  "q \<noteq> NaN \<Longrightarrow>
   on_line p q =
     \<lparr>stages = blocks (runBuildingBlocks (Some (Scalar q)) (stages p)),
      stdout = stdout p @ console (runBuildingBlocks (Some (Scalar q)) (stages p)),
      history = history p @ [calls (runBuildingBlocks (Some (Scalar q)) (stages p))],
      crashed = uncaught (runBuildingBlocks (Some (Scalar q)) (stages p))\<rparr>"
  by (simp add: on_line_def getValidInputNumber_def Let_def)

lemma two_lines:
  "q \<noteq> NaN \<Longrightarrow> q' \<noteq> NaN \<Longrightarrow> \<not> uncaught (runBuildingBlocks (Some (Scalar q)) fs) \<Longrightarrow>
   history (stdinSource fs [q, q']) =
     [calls (runBuildingBlocks (Some (Scalar q)) fs),
      calls (runBuildingBlocks (Some (Scalar q'))
               (blocks (runBuildingBlocks (Some (Scalar q)) fs)))]"
  by (simp add: stdinSource_def on_line_number)

lemma first_call_of_run:
  "fs \<noteq> [] \<Longrightarrow> hd (calls (runBuildingBlocks (Some el) fs)) = el"
  by (cases fs) (simp_all add: Let_def split: outcome.splits thrown.splits)

text \<open>
  C1, as the code has it. For every list of blocks and every input element: if the block
  at some position is called during a run and throws a value whose message can be read
  (anything but \<open>null\<close> and \<open>undefined\<close>), the message is logged, the call of the next
  block is on the element the throwing block was called on, and the run goes on with the
  remaining blocks exactly as a run of them on that element. Unless an exception leaves
  that rest of the run, the next line is accepted: its run starts at the first block, on
  the new scalar, with the blocks as this run left them.
\<close>

theorem failure_continues_with_same_element:
  assumes reached: "element (runBuildingBlocks (Some input) before) = Some el"
      and throws: "outcome_of block el = Thrown (WithMessage message)"
  shows "runBuildingBlocks (Some input) (before @ block # rest) =
           \<lparr>element = element (runBuildingBlocks (Some el) rest),
            blocks = blocks (runBuildingBlocks (Some input) before) @ after block el
                     # blocks (runBuildingBlocks (Some el) rest),
            console = console (runBuildingBlocks (Some input) before) @ logged block el
                     @ [message] @ console (runBuildingBlocks (Some el) rest),
            calls = calls (runBuildingBlocks (Some input) before) @ el
                     # calls (runBuildingBlocks (Some el) rest),
            uncaught = uncaught (runBuildingBlocks (Some el) rest)\<rparr> \<and>
         calls (runBuildingBlocks (Some input) (before @ block # rest)) ! length before = el \<and>
         (rest \<noteq> [] \<longrightarrow>
            calls (runBuildingBlocks (Some input) (before @ block # rest)) ! Suc (length before)
              = el) \<and>
         (input = Scalar q \<and> q \<noteq> NaN \<and> q' \<noteq> NaN \<and>
          \<not> uncaught (runBuildingBlocks (Some el) rest) \<longrightarrow>
            history (stdinSource (before @ block # rest) [q, q']) =
              [calls (runBuildingBlocks (Some input) (before @ block # rest)),
               calls (runBuildingBlocks (Some (Scalar q'))
                        (blocks (runBuildingBlocks (Some input) (before @ block # rest))))] \<and>
            hd (calls (runBuildingBlocks (Some (Scalar q'))
                        (blocks (runBuildingBlocks (Some input) (before @ block # rest)))))
              = Scalar q')"
proof -
  let ?r1 = "runBuildingBlocks (Some input) before"
  let ?r2 = "runBuildingBlocks (Some el) rest"
  let ?r = "runBuildingBlocks (Some input) (before @ block # rest)"
  have caught: "\<not> uncaught ?r1"
    using reached uncaught_run_ends [of "Some input" before] by auto
  have step: "runBuildingBlocks (Some el) (block # rest) =
        \<lparr>element = element ?r2, blocks = after block el # blocks ?r2,
         console = logged block el @ [message] @ console ?r2, calls = el # calls ?r2,
         uncaught = uncaught ?r2\<rparr>"
    using throws by (simp add: Let_def)
  have whole: "?r = \<lparr>element = element ?r2,
        blocks = blocks ?r1 @ after block el # blocks ?r2,
        console = console ?r1 @ logged block el @ [message] @ console ?r2,
        calls = calls ?r1 @ el # calls ?r2,
        uncaught = uncaught ?r2\<rparr>"
    using run_append [of "Some input" before "block # rest"] reached caught step by simp
  have len: "length (calls ?r1) = length before"
    using reached by (rule calls_of_complete_run)
  have here: "calls ?r ! length before = el"
    using whole len by (simp add: nth_append)
  have "calls ?r2 ! 0 = el" if "rest \<noteq> []"
    using that run_first_call by (cases rest) simp_all
  then have there: "rest \<noteq> [] \<longrightarrow> calls ?r ! Suc (length before) = el"
    using whole len by (simp add: nth_append)
  have "blocks ?r \<noteq> []"
    using length_blocks_run [of "Some input" "before @ block # rest"] by auto
  then have fresh: "hd (calls (runBuildingBlocks (Some (Scalar q')) (blocks ?r))) = Scalar q'"
    by (rule first_call_of_run)
  have next_line: "history (stdinSource (before @ block # rest) [q, q']) =
      [calls ?r, calls (runBuildingBlocks (Some (Scalar q')) (blocks ?r))]"
    if "input = Scalar q" "q \<noteq> NaN" "q' \<noteq> NaN" "\<not> uncaught ?r2"
    using that whole two_lines [of q q' "before @ block # rest"] by simp
  show ?thesis
    using whole here there fresh next_line by blast
qed

text \<open>
  The filter, a block that throws an error, the sum fold and the renderer, run on the
  scalar 5 and then on the scalar 6: the message is on the console, and the sum fold and
  the renderer were called on 5.
\<close>

theorem failure_continues_with_same_element_witness:
  "element (runBuildingBlocks (Some (Scalar (Num 5)))
              [filter_block (\<lambda>i. greater i (Num 0)) AND]) = Some (Scalar (Num 5)) \<and>
   outcome_of (throwing (WithMessage ''boom'')) (Scalar (Num 5))
     = Thrown (WithMessage ''boom'') \<and>
   runBuildingBlocks (Some (Scalar (Num 5)))
     ([filter_block (\<lambda>i. greater i (Num 0)) AND] @ throwing (WithMessage ''boom'')
        # [foldSum, stdoutProcessor (\<lambda>q. [])]) =
     \<lparr>element = Some (Scalar (Num 5)),
      blocks = [filter_block (\<lambda>i. greater i (Num 0)) AND, throwing (WithMessage ''boom''),
                foldSum, stdoutProcessor (\<lambda>q. [])],
      console = [''boom'', ''5''],
      calls = [Scalar (Num 5), Scalar (Num 5), Scalar (Num 5), Scalar (Num 5)],
      uncaught = False\<rparr> \<and>
   history (stdinSource ([filter_block (\<lambda>i. greater i (Num 0)) AND]
        @ throwing (WithMessage ''boom'') # [foldSum, stdoutProcessor (\<lambda>q. [])])
        [Num 5, Num 6]) =
     [[Scalar (Num 5), Scalar (Num 5), Scalar (Num 5), Scalar (Num 5)],
      [Scalar (Num 6), Scalar (Num 6), Scalar (Num 6), Scalar (Num 6)]]"
  using failure_continues_with_same_element
          [of "Scalar (Num 5)" "[filter_block (\<lambda>i. greater i (Num 0)) AND]" "Scalar (Num 5)"
              "throwing (WithMessage ''boom'')" "''boom''" "[foldSum, stdoutProcessor (\<lambda>q. [])]"
              "Num 5" "Num 6"]
  by (simp add: digit_def)

text \<open>
  C1 as stated fails for a block that throws \<open>null\<close> or \<open>undefined\<close>: reading the
  message raises in the handler, the renderer after the block is not called, and the
  line 6 that follows is not handled.
\<close>

theorem failure_without_message_ends_the_run:
  "outcome_of (throwing Nullish) (Scalar (Num 5)) = Thrown Nullish \<and>
   runBuildingBlocks (Some (Scalar (Num 5))) [throwing Nullish, stdoutProcessor (\<lambda>q. [])] =
     \<lparr>element = None, blocks = [throwing Nullish, stdoutProcessor (\<lambda>q. [])],
      console = [], calls = [Scalar (Num 5)], uncaught = True\<rparr> \<and>
   history (stdinSource [throwing Nullish, stdoutProcessor (\<lambda>q. [])] [Num 5, Num 6])
     = [[Scalar (Num 5)]] \<and>
   stdout (stdinSource [throwing Nullish, stdoutProcessor (\<lambda>q. [])] [Num 5, Num 6]) = []"
  by (simp add: stdinSource_def on_line_def getValidInputNumber_def)

text \<open>
  C8. For every list of blocks and every input element: if the block at some position is
  called during a run and returns \<open>null\<close>, the run makes no further call, the blocks after
  it are left exactly as they were, nothing they would log reaches the console, and the
  run ends with \<open>null\<close>; the line adds to the output only what was logged up to that call.
\<close>

theorem swallow_stops_the_run:
  assumes reached: "element (runBuildingBlocks (Some input) before) = Some el"
      and swallows: "outcome_of block el = Returned None"
  shows "runBuildingBlocks (Some input) (before @ block # rest) =
           \<lparr>element = None,
            blocks = blocks (runBuildingBlocks (Some input) before) @ after block el # rest,
            console = console (runBuildingBlocks (Some input) before) @ logged block el,
            calls = calls (runBuildingBlocks (Some input) before) @ [el],
            uncaught = False\<rparr> \<and>
         length (calls (runBuildingBlocks (Some input) (before @ block # rest)))
           = Suc (length before) \<and>
         drop (Suc (length before))
           (blocks (runBuildingBlocks (Some input) (before @ block # rest))) = rest \<and>
         (input = Scalar q \<and> q \<noteq> NaN \<and> stages p = before @ block # rest \<longrightarrow>
            drop (Suc (length before)) (stages (on_line p q)) = rest \<and>
            stdout (on_line p q) =
              stdout p @ console (runBuildingBlocks (Some input) before) @ logged block el)"
proof -
  let ?r1 = "runBuildingBlocks (Some input) before"
  let ?r = "runBuildingBlocks (Some input) (before @ block # rest)"
  have caught: "\<not> uncaught ?r1"
    using reached uncaught_run_ends [of "Some input" before] by auto
  have step: "runBuildingBlocks (Some el) (block # rest) =
        \<lparr>element = None, blocks = after block el # rest,
         console = logged block el, calls = [el], uncaught = False\<rparr>"
    using swallows by (simp add: Let_def run_null)
  have whole: "?r = \<lparr>element = None, blocks = blocks ?r1 @ after block el # rest,
        console = console ?r1 @ logged block el, calls = calls ?r1 @ [el],
        uncaught = False\<rparr>"
    using run_append [of "Some input" before "block # rest"] reached caught step by simp
  have len: "length (calls ?r1) = length before"
    using reached by (rule calls_of_complete_run)
  have lenb: "length (blocks ?r1) = length before"
    by (rule length_blocks_run)
  have count: "length (calls ?r) = Suc (length before)"
    using whole len by simp
  have later: "drop (Suc (length before)) (blocks ?r) = rest"
    using whole lenb by simp
  have line: "drop (Suc (length before)) (stages (on_line p q)) = rest \<and>
      stdout (on_line p q) = stdout p @ console ?r1 @ logged block el"
    if "input = Scalar q" "q \<noteq> NaN" "stages p = before @ block # rest"
    using that whole later on_line_number [of q p] by simp
  show ?thesis using whole count later line by blast
qed

text \<open>
  The configured blocks on the line 1: the filter passes it, the first window swallows, and
  the four blocks after the window are untouched.
\<close>

theorem swallow_stops_the_run_witness:
  "element (runBuildingBlocks (Some (Scalar (Num 1)))
              [filter_block (\<lambda>i. greater i (Num 0)) AND]) = Some (Scalar (Num 1)) \<and>
   outcome_of (fixedEventWindow (Num 2)) (Scalar (Num 1)) = Returned None \<and>
   runBuildingBlocks (Some (Scalar (Num 1)))
     ([filter_block (\<lambda>i. greater i (Num 0)) AND] @ fixedEventWindow (Num 2)
        # [foldSum, fixedEventWindow (Num 3), foldMedian, stdoutProcessor (\<lambda>q. [])]) =
     \<lparr>element = None,
      blocks = [filter_block (\<lambda>i. greater i (Num 0)) AND,
                window_closure (Num 2) [Scalar (Num 1)],
                foldSum, fixedEventWindow (Num 3), foldMedian, stdoutProcessor (\<lambda>q. [])],
      console = [],
      calls = [Scalar (Num 1), Scalar (Num 1)],
      uncaught = False\<rparr> \<and>
   drop 2 (stages (on_line \<lparr>stages = pipeline_functions (\<lambda>q. []), stdout = [], history = [],
                             crashed = False\<rparr> (Num 1)))
     = [foldSum, fixedEventWindow (Num 3), foldMedian, stdoutProcessor (\<lambda>q. [])] \<and>
   stdout (on_line \<lparr>stages = pipeline_functions (\<lambda>q. []), stdout = [], history = [],
                     crashed = False\<rparr> (Num 1)) = []"
  using swallow_stops_the_run
          [of "Scalar (Num 1)" "[filter_block (\<lambda>i. greater i (Num 0)) AND]" "Scalar (Num 1)"
              "fixedEventWindow (Num 2)"
              "[foldSum, fixedEventWindow (Num 3), foldMedian, stdoutProcessor (\<lambda>q. [])]"
              "Num 1"
              "\<lparr>stages = pipeline_functions (\<lambda>q. []), stdout = [], history = [],
                 crashed = False\<rparr>"]
  by (simp add: fixedEventWindow_def push_event_def pipeline_functions_def numeral_2_eq_2)


text \<open>
  C4. A window of size 2, from its empty buffer, called on the scalars 1, 2, 3, 4 returns
  \<open>null\<close>, the batch of 1 and 2, \<open>null\<close>, the batch of 3 and 4. For every size and
  buffer: a full buffer is emptied at the start of the call, the element is appended, and
  the call returns a batch exactly when the buffer then has the configured length; that
  batch holds the buffer, in the order of insertion.
\<close>

theorem tumbling_window:
  "successive (fixedEventWindow (Num 2))
     [Scalar (Num 1), Scalar (Num 2), Scalar (Num 3), Scalar (Num 4)] =
     [Returned None, Returned (Some (Batch [Scalar (Num 1), Scalar (Num 2)])),
      Returned None, Returned (Some (Batch [Scalar (Num 3), Scalar (Num 4)]))] \<and>
   fixedEventWindow size' = window_closure size' [] \<and>
   after (window_closure size' eventBuffer) el =
     window_closure size'
       (if Num (of_nat (length eventBuffer)) = size' then [el] else eventBuffer @ [el]) \<and>
   outcome_of (window_closure size' eventBuffer) el =
     (if Num (of_nat (length eventBuffer)) = size'
      then (if Num 1 = size' then Returned (Some (Batch [el])) else Returned None)
      else (if Num (of_nat (Suc (length eventBuffer))) = size'
            then Returned (Some (Batch (eventBuffer @ [el]))) else Returned None)) \<and>
   logged (window_closure size' eventBuffer) el = []"
  by (simp add: fixedEventWindow_def push_event_def)

text \<open>
  C2, as the code has it. The configured blocks on the lines 1, 2, 3, -1, 4, 5, 6: the
  filter is called on every line and the first window on all but -1; the second window
  is called on the three sums 3, 7 and 11, which fill it; the renderer is called on their
  median 7 and prints \<open>7\<close>. With the lines 7 and 8 added, a fourth sum 15 starts a new
  buffer of the second window and nothing more is printed.
\<close>

theorem end_to_end_scenario:
  "inputs_of 0 (history (stdinSource (pipeline_functions other)
       [Num 1, Num 2, Num 3, Num (- 1), Num 4, Num 5, Num 6])) =
     [Scalar (Num 1), Scalar (Num 2), Scalar (Num 3), Scalar (Num (- 1)), Scalar (Num 4),
      Scalar (Num 5), Scalar (Num 6)] \<and>
   inputs_of 1 (history (stdinSource (pipeline_functions other)
       [Num 1, Num 2, Num 3, Num (- 1), Num 4, Num 5, Num 6])) =
     [Scalar (Num 1), Scalar (Num 2), Scalar (Num 3), Scalar (Num 4),
      Scalar (Num 5), Scalar (Num 6)] \<and>
   inputs_of 3 (history (stdinSource (pipeline_functions other)
       [Num 1, Num 2, Num 3, Num (- 1), Num 4, Num 5, Num 6])) =
     [Scalar (Num 3), Scalar (Num 7), Scalar (Num 11)] \<and>
   inputs_of 5 (history (stdinSource (pipeline_functions other)
       [Num 1, Num 2, Num 3, Num (- 1), Num 4, Num 5, Num 6])) = [Scalar (Num 7)] \<and>
   stdout (stdinSource (pipeline_functions other)
       [Num 1, Num 2, Num 3, Num (- 1), Num 4, Num 5, Num 6]) = [''7''] \<and>
   inputs_of 3 (history (stdinSource (pipeline_functions other)
       [Num 1, Num 2, Num 3, Num (- 1), Num 4, Num 5, Num 6, Num 7, Num 8])) =
     [Scalar (Num 3), Scalar (Num 7), Scalar (Num 11), Scalar (Num 15)] \<and>
   stages (stdinSource (pipeline_functions other)
       [Num 1, Num 2, Num 3, Num (- 1), Num 4, Num 5, Num 6, Num 7, Num 8]) ! 3 =
     window_closure (Num 3) [Scalar (Num 15)] \<and>
   stdout (stdinSource (pipeline_functions other)
       [Num 1, Num 2, Num 3, Num (- 1), Num 4, Num 5, Num 6, Num 7, Num 8]) = [''7'']"
  by (simp add: stdinSource_def on_line_def getValidInputNumber_def pipeline_functions_def
        fixedEventWindow_def push_event_def array_sort_def SortCompare_def index_def
        in_bounds_def inputs_of_def digit_def Let_def round_double_integer round_double_zero)

text \<open>
  C2 as stated fails: after the lines 1, 2, 3, -1, 4, 5, 6 the sums are not the two sums 3
  and 7 with nothing printed; there are three sums, the second window is full and \<open>7\<close> is
  on the console.
\<close>

theorem end_to_end_three_sums:
  "inputs_of 3 (history (stdinSource (pipeline_functions (\<lambda>q. []))
       [Num 1, Num 2, Num 3, Num (- 1), Num 4, Num 5, Num 6])) \<noteq>
     [Scalar (Num 3), Scalar (Num 7)] \<and>
   inputs_of 3 (history (stdinSource (pipeline_functions (\<lambda>q. []))
       [Num 1, Num 2, Num 3, Num (- 1), Num 4, Num 5, Num 6])) =
     [Scalar (Num 3), Scalar (Num 7), Scalar (Num 11)] \<and>
   stages (stdinSource (pipeline_functions (\<lambda>q. []))
       [Num 1, Num 2, Num 3, Num (- 1), Num 4, Num 5, Num 6]) ! 3 =
     window_closure (Num 3) [Scalar (Num 3), Scalar (Num 7), Scalar (Num 11)] \<and>
   stdout (stdinSource (pipeline_functions (\<lambda>q. []))
       [Num 1, Num 2, Num 3, Num (- 1), Num 4, Num 5, Num 6]) = [''7'']"
  by (simp add: stdinSource_def on_line_def getValidInputNumber_def pipeline_functions_def
        fixedEventWindow_def push_event_def array_sort_def SortCompare_def index_def
        in_bounds_def inputs_of_def digit_def Let_def round_double_integer round_double_zero)

end
